theory Spec2Isabelle
  imports Main
begin

section \<open>The store of \<open>src/store/useStore.js\<close>\<close>

text \<open>
  \<open>createStore\<close> closes over two variables: \<open>storeState\<close>, the current state, and
  \<open>listeners\<close>, a JavaScript \<open>Set\<close> of callbacks. The closure is a record that every
  operation takes and returns.

  A callback is known to the \<open>Set\<close> by its reference only, so a listener is an identity
  \<open>lid\<close>; what the body of the callback does is looked up in a table (\<open>'s code\<close>):
  the calls to the store that the listener makes, in order, when it is called with a
  state.

  The \<open>Set\<close> is the list of entries that ECMAScript keeps for it: \<open>add\<close> appends a value
  that is not present, \<open>delete\<close> leaves an empty slot (\<open>None\<close>) where the value was, and
  \<open>forEach\<close> walks the list by index and reads its length again after each callback, so
  that it sees what a callback adds or deletes.

  Two fields are not variables of the source. \<open>calls\<close> is the trace of the listener
  invocations made so far, each with its caller, the listener and the argument. A
  listener is called at two places of the source: by the \<open>forEach\<close> of a \<open>setState\<close>
  call (\<open>Pass p\<close>, with the number \<open>p\<close> of that \<open>setState\<close> call) and by the effect
  of \<open>useStore\<close>, which calls the listener it has just subscribed (\<open>Effect\<close>).
  \<open>passes\<close> counts the \<open>setState\<close> calls started so far and numbers them.
\<close>

type_synonym lid = nat

type_synonym entries = "lid option list"

datatype 's updater = Replace 's | Update "'s \<Rightarrow> 's"

datatype 's action = CallSetState "'s updater" | CallSubscribe lid | CallUnsubscribe lid

type_synonym 's code = "lid \<Rightarrow> 's \<Rightarrow> 's action list"

datatype caller = Pass nat | Effect

type_synonym 's call = "caller \<times> lid \<times> 's"

record 's Store =
  storeState :: 's
  listeners :: entries
  calls :: "'s call list"
  passes :: nat

subsection \<open>The \<open>Set\<close> operations\<close>

definition set_add :: "entries \<Rightarrow> lid \<Rightarrow> entries" where
  "set_add es l = (if Some l \<in> set es then es else es @ [Some l])"

definition set_delete :: "entries \<Rightarrow> lid \<Rightarrow> entries" where
  "set_delete es l = map (\<lambda>e. if e = Some l then None else e) es"

text \<open>The values of the \<open>Set\<close>, in insertion order.\<close>

definition members :: "entries \<Rightarrow> lid list" where
  "members es = List.map_filter id es"

subsection \<open>\<open>createStore\<close>, \<open>getState\<close>, \<open>subscribe\<close>\<close>

definition createStore :: "'s \<Rightarrow> 's Store" where
  "createStore initialState =
     \<lparr>storeState = initialState, listeners = [], calls = [], passes = 0\<rparr>"

definition getState :: "'s Store \<Rightarrow> 's" where
  "getState st = storeState st"

text \<open>
  \<open>subscribe(listener)\<close> adds the listener and returns the closure
  \<open>() => listeners.delete(listener)\<close>; \<open>unsubscribe l\<close> is a call of the closure that
  \<open>subscribe(l)\<close> returned.
\<close>

definition subscribe :: "lid \<Rightarrow> 's Store \<Rightarrow> 's Store" where
  "subscribe l st = st\<lparr>listeners := set_add (listeners st) l\<rparr>"

definition unsubscribe :: "lid \<Rightarrow> 's Store \<Rightarrow> 's Store" where
  "unsubscribe l st = st\<lparr>listeners := set_delete (listeners st) l\<rparr>"

subsection \<open>\<open>setState\<close>\<close>

text \<open>
  \<open>typeof newState === "function" ? newState(storeState) : newState\<close>: the argument is
  either a function, which is applied to the current state, or any other value, which
  replaces it.
\<close>

fun nextState :: "'s updater \<Rightarrow> 's \<Rightarrow> 's" where
  "nextState (Update f) s = f s"
| "nextState (Replace v) s = v"

text \<open>
  \<open>setState\<close> assigns \<open>storeState\<close> and runs \<open>listeners.forEach\<close>, whose callback
  \<open>(listener) => listener(storeState)\<close> reads the variable \<open>storeState\<close> when it is
  called, once for each entry. A listener may call the store again while it runs
  (\<open>perform\<close> runs the calls its body makes, in order), so the three functions are
  mutually recursive, and a listener that writes on every call, or that deletes and adds
  itself again on every call, never lets \<open>setState\<close> return. The first argument bounds
  the number of entries visited along one chain of nested calls; \<open>None\<close> means that the
  bound was reached.
\<close>

fun setState :: "nat \<Rightarrow> 's code \<Rightarrow> 's updater \<Rightarrow> 's Store \<Rightarrow> 's Store option"
  and forEach :: "nat \<Rightarrow> 's code \<Rightarrow> nat \<Rightarrow> nat \<Rightarrow> 's Store \<Rightarrow> 's Store option"
  and perform :: "nat \<Rightarrow> 's code \<Rightarrow> 's action list \<Rightarrow> 's Store \<Rightarrow> 's Store option"
where
  "setState n c newState st =
     forEach n c (passes st) 0
       (st\<lparr>storeState := nextState newState (storeState st), passes := Suc (passes st)\<rparr>)"
| "forEach 0 c p i st = None"
| "forEach (Suc n) c p i st =
     (if i < length (listeners st) then
        (case listeners st ! i of
           None \<Rightarrow> forEach n c p (Suc i) st
         | Some l \<Rightarrow>
             (case perform n c (c l (storeState st))
                     (st\<lparr>calls := calls st @ [(Pass p, l, storeState st)]\<rparr>) of
                None \<Rightarrow> None
              | Some st' \<Rightarrow> forEach n c p (Suc i) st'))
      else Some st)"
| "perform n c [] st = Some st"
| "perform n c (a # as) st =
     (case a of
        CallSetState u \<Rightarrow>
          (case setState n c u st of None \<Rightarrow> None | Some st' \<Rightarrow> perform n c as st')
      | CallSubscribe l \<Rightarrow> perform n c as (subscribe l st)
      | CallUnsubscribe l \<Rightarrow> perform n c as (unsubscribe l st))"

subsection \<open>Callers and listeners\<close>

text \<open>
  A caller's sequence of calls to the store is run by \<open>perform\<close> as well: the list
  \<open>map CallSetState us\<close> is the sequence of writes \<open>us\<close>.

  \<open>observers c st\<close>: the listeners registered in \<open>st\<close> only look at their argument and
  make no call to the store. The listener that \<open>useStore\<close> registers,
  \<open>(newState) => setStateLocal(selector(newState))\<close>, is one.
  \<open>no_nested_setState c\<close>: no listener calls \<open>setState\<close>; it may subscribe and
  unsubscribe.
  \<open>subscribers_only c\<close>: the only calls that listeners make are calls of \<open>subscribe\<close>.
  \<open>leaves_out c l\<close>: no other listener subscribes the listener \<open>l\<close>.
\<close>

definition observers :: "'s code \<Rightarrow> 's Store \<Rightarrow> bool" where
  "observers c st = (\<forall>l \<in> set (members (listeners st)). \<forall>s. c l s = [])"

fun is_write :: "'s action \<Rightarrow> bool" where
  "is_write (CallSetState u) = True"
| "is_write (CallSubscribe l) = False"
| "is_write (CallUnsubscribe l) = False"

definition no_nested_setState :: "'s code \<Rightarrow> bool" where
  "no_nested_setState c = (\<forall>l s. \<not> list_ex is_write (c l s))"

fun is_subscribe :: "'s action \<Rightarrow> bool" where
  "is_subscribe (CallSubscribe l) = True"
| "is_subscribe (CallSetState u) = False"
| "is_subscribe (CallUnsubscribe l) = False"

definition subscribers_only :: "'s code \<Rightarrow> bool" where
  "subscribers_only c = (\<forall>l s. list_all is_subscribe (c l s))"

definition leaves_out :: "'s code \<Rightarrow> lid \<Rightarrow> bool" where
  "leaves_out c l = (\<forall>l' s. l' \<noteq> l \<longrightarrow> CallSubscribe l \<notin> set (c l' s))"

text \<open>The updaters of the \<open>setState\<close> calls of a caller, in order, and the state they lead to.\<close>

fun writes_of :: "'s action list \<Rightarrow> 's updater list" where
  "writes_of [] = []"
| "writes_of (CallSetState u # as) = u # writes_of as"
| "writes_of (CallSubscribe l # as) = writes_of as"
| "writes_of (CallUnsubscribe l # as) = writes_of as"

definition committed :: "'s \<Rightarrow> 's updater list \<Rightarrow> 's" where
  "committed s us = foldl (\<lambda>s u. nextState u s) s us"

text \<open>
  The invocations a call added to the trace, the listeners of a list of invocations, and
  the invocations of one listener.
\<close>

definition new_calls :: "'s Store \<Rightarrow> 's Store \<Rightarrow> 's call list" where
  "new_calls st st' = drop (length (calls st)) (calls st')"

definition callees :: "'s call list \<Rightarrow> lid list" where
  "callees cs = map (\<lambda>e. fst (snd e)) cs"

definition invocations :: "lid \<Rightarrow> 's call list \<Rightarrow> 's call list" where
  "invocations l cs = filter (\<lambda>e. fst (snd e) = l) cs"

text \<open>
  \<open>same_view cs\<close>: the invocations of one notification pass all received the same
  argument. \<open>last_pass_sees s st\<close>: the invocations of the most recent \<open>setState\<close> call
  received \<open>s\<close>.
\<close>

definition same_view :: "'s call list \<Rightarrow> bool" where
  "same_view cs =
     (\<forall>e \<in> set cs. \<forall>e' \<in> set cs. \<forall>p.
        fst e = Pass p \<longrightarrow> fst e' = Pass p \<longrightarrow> snd (snd e) = snd (snd e'))"

definition last_pass_sees :: "'s \<Rightarrow> 's Store \<Rightarrow> bool" where
  "last_pass_sees s st =
     (\<forall>e \<in> set (calls st). \<forall>p. fst e = Pass p \<longrightarrow> Suc p = passes st \<longrightarrow> snd (snd e) = s)"

section \<open>The application's store, \<open>src/store/store.js\<close>, and its writers\<close>

record app_state =
  count :: int

definition initialState :: app_state where
  "initialState = \<lparr>count = 0\<rparr>"

definition store :: "app_state Store" where
  "store = createStore initialState"

text \<open>
  \<open>Counter\<close> writes \<open>(state) => ({ ...state, count: state.count + 1 })\<close> and
  \<open>Grandchild\<close> writes \<open>(state) => ({ ...state, count: 0 })\<close>.
\<close>

definition increment :: "app_state updater" where
  "increment = Update (\<lambda>state. state\<lparr>count := count state + 1\<rparr>)"

definition reset :: "app_state updater" where
  "reset = Update (\<lambda>state. state\<lparr>count := 0\<rparr>)"

section \<open>\<open>useStore\<close>\<close>

text \<open>
  \<open>useStore(selector)\<close> returns the local state of \<open>useState(() => selector(storeState))\<close>:
  on the first render of the component (no local state yet, \<open>None\<close>) React runs the
  initialiser, on a later render it returns the local state it holds. A call without a
  selector is the call with the default \<open>(state) => state\<close>.
\<close>

definition useStore :: "('s \<Rightarrow> 'v) \<Rightarrow> 'v option \<Rightarrow> 's Store \<Rightarrow> 'v" where
  "useStore selector cell st =
     (case cell of None \<Rightarrow> selector (storeState st) | Some v \<Rightarrow> v)"

text \<open>
  The function given to \<open>useEffect\<close> runs after the render. It makes the listener, a new
  function (the identity \<open>listener\<close>), subscribes it, calls it once itself with the
  current state (\<open>listener(storeState)\<close>, line 38) and returns the function that
  \<open>subscribe\<close> returned, which React calls as the cleanup. React runs the effect after
  the first render and, after the cleanup, again after a render whose selector is another
  function (the dependency \<open>[selector]\<close>); each run makes a listener of its own.

  The listener is \<open>(newState) => setStateLocal(selector(newState))\<close>. The calls to the
  store made while it runs are those of the table, none for a selector that is pure; the
  local state it leaves is the selector's value of the last argument it received.
\<close>

definition useStore_effect :: "nat \<Rightarrow> 's code \<Rightarrow> lid \<Rightarrow> 's Store \<Rightarrow> 's Store option" where
  "useStore_effect n c listener st =
     (let st1 = subscribe listener st
      in perform n c (c listener (storeState st1))
           (st1\<lparr>calls := calls st1 @ [(Effect, listener, storeState st1)]\<rparr>))"

definition useStore_cleanup :: "lid \<Rightarrow> 's Store \<Rightarrow> 's Store" where
  "useStore_cleanup listener st = unsubscribe listener st"

definition local_state :: "('s \<Rightarrow> 'v) \<Rightarrow> lid \<Rightarrow> 's Store \<Rightarrow> 'v option \<Rightarrow> 'v option" where
  "local_state selector listener st cell =
     (case invocations listener (calls st) of
        [] \<Rightarrow> cell
      | e # es \<Rightarrow> Some (selector (snd (snd (last (e # es))))))"

section \<open>\<open>StoreProvider\<close> and \<open>useGlobalStore\<close>\<close>

text \<open>
  \<open>StoreContext = createContext(null)\<close>: a component reads the value of the nearest
  enclosing \<open>StoreContext.Provider\<close>, and \<open>null\<close> where there is none. The value that a
  \<open>StoreProvider\<close> provides is its \<open>store\<close> prop, which the source does not check:
  \<open>null\<close>, \<open>undefined\<close> (the prop left out), a store made by \<open>createStore\<close>, or another
  value that is no store (\<open>NotAStore\<close>: an object without a \<open>useStore\<close> method, such as
  \<open>{}\<close>). The other values for which \<open>!store\<close> holds, such as \<open>0\<close> and \<open>false\<close>, take
  the same path as \<open>null\<close>. The context of a component is the list of the values of its
  enclosing providers, the nearest first.

  The only \<open>throw\<close> of the source is
  \<open>throw new Error("useGlobalStore must be used within a StoreProvider")\<close>, the
  configuration error. \<open>!store\<close> holds for \<open>null\<close> and \<open>undefined\<close>; for an object
  without the method, \<open>store.useStore(selector)\<close> is a call of \<open>undefined\<close>, which
  JavaScript answers with a \<open>TypeError\<close>.
\<close>

datatype error = ConfigurationError | TypeError

datatype 'h store_prop = Null | Undefined | NotAStore | StoreObject 'h

type_synonym 'h provided = "'h store_prop list"

definition useContext :: "'h provided \<Rightarrow> 'h store_prop" where
  "useContext ctx = (case ctx of [] \<Rightarrow> Null | v # _ \<Rightarrow> v)"

definition StoreProvider :: "'h store_prop \<Rightarrow> 'h provided \<Rightarrow> 'h provided" where
  "StoreProvider v ctx = v # ctx"

fun falsy :: "'h store_prop \<Rightarrow> bool" where
  "falsy Null = True"
| "falsy Undefined = True"
| "falsy NotAStore = False"
| "falsy (StoreObject h) = False"

definition useGlobalStore :: "'s Store provided \<Rightarrow> ('s \<Rightarrow> 'v) \<Rightarrow> 'v option \<Rightarrow> error + 'v" where
  "useGlobalStore ctx selector cell =
     (let v = useContext ctx
      in if falsy v then Inl ConfigurationError
         else (case v of
                 StoreObject st \<Rightarrow> Inr (useStore selector cell st)
               | _ \<Rightarrow> Inl TypeError))"

section \<open>Listeners used in the examples\<close>

text \<open>\<open>watch\<close>: every listener only looks at its argument.\<close>

definition watch :: "'s code" where
  "watch l s = []"

text \<open>
  \<open>nested\<close>: listener \<open>0\<close> is \<open>(s) => { if (s === 1) setState(2) }\<close>; the others only
  look at their argument.
\<close>

definition nested :: "int code" where
  "nested l s = (if l = 0 \<and> s = 1 then [CallSetState (Replace 2)] else [])"

text \<open>
  \<open>remover\<close>: listener \<open>0\<close> calls the unsubscribe function of listener \<open>1\<close>.
  \<open>rejoiner\<close>: listener \<open>1\<close> calls the unsubscribe function of listener \<open>0\<close> and
  subscribes listener \<open>0\<close> again.
  \<open>recruiter\<close>: listener \<open>0\<close> subscribes a listener \<open>2\<close>.
  \<open>inviter\<close>: listener \<open>1\<close> is \<open>(s) => { if (s === 6) subscribe(listener0) }\<close>.
\<close>

definition remover :: "int code" where
  "remover l s = (if l = 0 then [CallUnsubscribe 1] else [])"

definition rejoiner :: "int code" where
  "rejoiner l s = (if l = 1 then [CallUnsubscribe 0, CallSubscribe 0] else [])"

definition recruiter :: "int code" where
  "recruiter l s = (if l = 0 then [CallSubscribe 2] else [])"

definition inviter :: "int code" where
  "inviter l s = (if l = 1 \<and> s = 6 then [CallSubscribe 0] else [])"

text \<open>A store with the listeners \<open>0\<close> and \<open>1\<close>, registered in this order.\<close>

definition two_watchers :: "int Store" where
  "two_watchers = subscribe 1 (subscribe 0 (createStore 0))"

text \<open>The store \<open>two_watchers\<close> after \<open>setState(5)\<close>.\<close>

definition notified_once :: "int Store" where
  "notified_once =
     \<lparr>storeState = 5, listeners = [Some 0, Some 1],
      calls = [(Pass 0, 0, 5), (Pass 0, 1, 5)], passes = 1\<rparr>"

section \<open>Lemmas\<close>

subsection \<open>The \<open>Set\<close>\<close>

lemma members_simps [simp]:
  "members [] = []"
  "members (None # es) = members es"
  "members (Some l # es) = l # members es"
  by (simp_all add: members_def map_filter_simps)

lemma members_append [simp]: "members (xs @ ys) = members xs @ members ys"
proof (induction xs)
  case Nil
  then show ?case by simp
next
  case (Cons x xs)
  then show ?case by (cases x) simp_all
qed

lemma set_members: "set (members es) = {l. Some l \<in> set es}"
proof (induction es)
  case Nil
  then show ?case by simp
next
  case (Cons e es)
  then show ?case by (cases e) auto
qed

lemma members_set_add:
  "members (set_add es l) = (if l \<in> set (members es) then members es else members es @ [l])"
  by (simp add: set_add_def set_members)

lemma members_set_delete: "members (set_delete es l) = removeAll l (members es)"
proof (induction es)
  case Nil
  then show ?case by (simp add: set_delete_def)
next
  case (Cons e es)
  then show ?case by (cases e) (auto simp: set_delete_def)
qed

lemma length_set_delete [simp]: "length (set_delete es l) = length es"
  by (simp add: set_delete_def)

lemma distinct_set_add: "distinct (members es) \<Longrightarrow> distinct (members (set_add es l))"
  by (simp add: members_set_add)

lemma distinct_set_delete: "distinct (members es) \<Longrightarrow> distinct (members (set_delete es l))"
  by (simp add: members_set_delete distinct_removeAll)

lemma set_delete_absent: "l \<notin> set (members es) \<Longrightarrow> set_delete es l = es"
  by (auto simp: set_delete_def set_members intro!: map_idI)

lemma set_delete_twice: "set_delete (set_delete es l) l = set_delete es l"
  by (simp add: set_delete_absent members_set_delete)

lemma members_drop_nth:
  assumes "i < length es"
  shows "members (drop i es) =
           (case es ! i of None \<Rightarrow> [] | Some l \<Rightarrow> [l]) @ members (drop (Suc i) es)"
proof -
  have "drop i es = es ! i # drop (Suc i) es"
    using assms by (simp add: Cons_nth_drop_Suc)
  then show ?thesis by (cases "es ! i") simp_all
qed

subsection \<open>A pass over listeners that only observe\<close>

lemma forEach_observers:
  assumes "\<forall>l \<in> set (members (listeners st)). \<forall>s. c l s = []"
    and "length (listeners st) - i < n"
  shows "forEach n c p i st =
           Some (st\<lparr>calls := calls st @
                     map (\<lambda>l. (Pass p, l, storeState st)) (members (drop i (listeners st)))\<rparr>)"
  using assms
proof (induction n arbitrary: i st)
  case 0
  then show ?case by simp
next
  case (Suc n)
  show ?case
  proof (cases "i < length (listeners st)")
    case False
    then show ?thesis by simp
  next
    case True
    note inb = this
    show ?thesis
    proof (cases "listeners st ! i")
      case None
      have "length (listeners st) - Suc i < n" using Suc.prems(2) inb by arith
      then have "forEach n c p (Suc i) st =
           Some (st\<lparr>calls := calls st @
                     map (\<lambda>l. (Pass p, l, storeState st)) (members (drop (Suc i) (listeners st)))\<rparr>)"
        using Suc.IH [of st "Suc i"] Suc.prems(1) by simp
      then show ?thesis using inb None by (simp add: members_drop_nth)
    next
      case (Some l)
      let ?st1 = "st\<lparr>calls := calls st @ [(Pass p, l, storeState st)]\<rparr>"
      have "Some l \<in> set (listeners st)" using inb Some by (metis nth_mem)
      then have "l \<in> set (members (listeners st))" by (simp add: set_members)
      then have body: "c l (storeState st) = []" using Suc.prems(1) by simp
      have "length (listeners ?st1) - Suc i < n" using Suc.prems(2) inb by simp
      then have "forEach n c p (Suc i) ?st1 =
           Some (?st1\<lparr>calls := calls ?st1 @
                     map (\<lambda>l. (Pass p, l, storeState ?st1)) (members (drop (Suc i) (listeners ?st1)))\<rparr>)"
        using Suc.IH [of ?st1 "Suc i"] Suc.prems(1) by simp
      then show ?thesis using inb Some body by (simp add: members_drop_nth)
    qed
  qed
qed

lemma setState_observers:
  assumes "observers c st" and "length (listeners st) < n"
  shows "setState n c u st =
           Some (st\<lparr>storeState := nextState u (storeState st), passes := Suc (passes st),
                    calls := calls st @
                      map (\<lambda>l. (Pass (passes st), l, nextState u (storeState st)))
                        (members (listeners st))\<rparr>)"
proof -
  let ?st1 = "st\<lparr>storeState := nextState u (storeState st), passes := Suc (passes st)\<rparr>"
  have "\<forall>l \<in> set (members (listeners ?st1)). \<forall>s. c l s = []"
    using assms(1) by (simp add: observers_def)
  moreover have "length (listeners ?st1) - 0 < n" using assms(2) by simp
  ultimately have "forEach n c (passes st) 0 ?st1 =
      Some (?st1\<lparr>calls := calls ?st1 @
                map (\<lambda>l. (Pass (passes st), l, storeState ?st1)) (members (drop 0 (listeners ?st1)))\<rparr>)"
    by (rule forEach_observers)
  then show ?thesis by simp
qed

subsection \<open>The \<open>Set\<close> of a store never holds a listener twice\<close>

lemma distinct_after:
  "(distinct (members (listeners st)) \<longrightarrow>
      (\<forall>st'. setState n c u st = Some st' \<longrightarrow> distinct (members (listeners st'))))"
  "(distinct (members (listeners st)) \<longrightarrow>
      (\<forall>st'. forEach n c p i st = Some st' \<longrightarrow> distinct (members (listeners st'))))"
  "(distinct (members (listeners st)) \<longrightarrow>
      (\<forall>st'. perform n c as st = Some st' \<longrightarrow> distinct (members (listeners st'))))"
proof (induction n c u st and n c p i st and n c as st rule: setState_forEach_perform.induct)
  case (1 n c newState st)
  then show ?case by simp
next
  case (2 c p i st)
  then show ?case by simp
next
  case (3 n c p i st)
  show ?case
  proof (intro impI allI)
    fix st'
    assume d: "distinct (members (listeners st))"
      and r: "forEach (Suc n) c p i st = Some st'"
    show "distinct (members (listeners st'))"
    proof (cases "i < length (listeners st)")
      case False
      then show ?thesis using d r by simp
    next
      case True
      show ?thesis
      proof (cases "listeners st ! i")
        case None
        then show ?thesis using "3.IH"(1) [OF True None] True d r by simp
      next
        case (Some l)
        let ?st1 = "st\<lparr>calls := calls st @ [(Pass p, l, storeState st)]\<rparr>"
        obtain st2 where p2: "perform n c (c l (storeState st)) ?st1 = Some st2"
          and f2: "forEach n c p (Suc i) st2 = Some st'"
          using r True Some by (auto split: option.splits)
        have "distinct (members (listeners st2))"
          using "3.IH"(2) [OF True Some] d p2 by simp
        then show ?thesis using "3.IH"(3) [OF True Some p2] f2 by simp
      qed
    qed
  qed
next
  case (4 n c st)
  then show ?case by simp
next
  case (5 n c a as st)
  show ?case
  proof (intro impI allI)
    fix st'
    assume d: "distinct (members (listeners st))"
      and r: "perform n c (a # as) st = Some st'"
    show "distinct (members (listeners st'))"
    proof (cases a)
      case (CallSetState u)
      obtain st2 where s2: "setState n c u st = Some st2" and p2: "perform n c as st2 = Some st'"
        using r CallSetState by (auto split: option.splits)
      have "distinct (members (listeners st2))"
        using "5.IH"(1) [OF CallSetState] d s2 by blast
      then show ?thesis using "5.IH"(2) [OF CallSetState s2] p2 by blast
    next
      case (CallSubscribe l)
      have "distinct (members (listeners (subscribe l st)))"
        using d by (simp add: subscribe_def distinct_set_add)
      then show ?thesis using "5.IH"(3) [OF CallSubscribe] r CallSubscribe by simp
    next
      case (CallUnsubscribe l)
      have "distinct (members (listeners (unsubscribe l st)))"
        using d by (simp add: unsubscribe_def distinct_set_delete)
      then show ?thesis using "5.IH"(4) [OF CallUnsubscribe] r CallUnsubscribe by simp
    qed
  qed
qed

lemma created_distinct:
  assumes "perform n c prog (createStore s0) = Some st"
  shows "distinct (members (listeners st))"
proof -
  have "distinct (members (listeners (createStore s0)))" by (simp add: createStore_def)
  then show ?thesis using distinct_after(3) assms by blast
qed

subsection \<open>The trace\<close>

lemma invocations_map_member:
  "distinct ms \<Longrightarrow> l \<in> set ms \<Longrightarrow> invocations l (map (\<lambda>l. (p, l, s)) ms) = [(p, l, s)]"
proof (induction ms)
  case Nil
  then show ?case by simp
next
  case (Cons m ms)
  have none: "l \<notin> set ms \<Longrightarrow> filter (\<lambda>e. fst (snd e) = l) (map (\<lambda>l. (p, l, s)) ms) = []"
    by (induction ms) auto
  show ?case
  proof (cases "m = l")
    case True
    then have "l \<notin> set ms" using Cons.prems(1) by simp
    then show ?thesis using True none by (simp add: invocations_def)
  next
    case False
    then show ?thesis using Cons by (simp add: invocations_def)
  qed
qed

lemma invocations_map_absent:
  "l \<notin> set ms \<Longrightarrow> invocations l (map (\<lambda>l. (p, l, s)) ms) = []"
  by (induction ms) (auto simp: invocations_def)

lemma new_calls_append [simp]:
  "new_calls st (st'\<lparr>calls := calls st @ xs\<rparr>) = xs"
  by (simp add: new_calls_def)

lemma two_watchers_fields:
  "listeners two_watchers = [Some 0, Some 1]" "passes two_watchers = 0"
  "storeState two_watchers = 0" "calls two_watchers = []"
  by (simp_all add: two_watchers_def subscribe_def createStore_def set_add_def)

subsection \<open>Sequences of calls\<close>

lemma perform_quiet:
  "\<not> list_ex is_write as \<Longrightarrow>
     \<exists>st'. perform n c as st = Some st' \<and> storeState st' = storeState st
        \<and> calls st' = calls st \<and> passes st' = passes st"
proof (induction as arbitrary: st)
  case Nil
  then show ?case by simp
next
  case (Cons a as)
  then have rest: "\<not> list_ex is_write as" by simp
  show ?case
  proof (cases a)
    case (CallSetState u)
    then show ?thesis using Cons.prems by simp
  next
    case (CallSubscribe l)
    then show ?thesis using Cons.IH [OF rest, of "subscribe l st"] by (simp add: subscribe_def)
  next
    case (CallUnsubscribe l)
    then show ?thesis using Cons.IH [OF rest, of "unsubscribe l st"] by (simp add: unsubscribe_def)
  qed
qed

lemma invocations_append [simp]:
  "invocations l (xs @ ys) = invocations l xs @ invocations l ys"
  by (simp add: invocations_def)

lemma invocations_not_called:
  "l \<notin> set (callees cs) \<Longrightarrow> invocations l cs = []"
  by (auto simp: invocations_def callees_def filter_empty_conv)

lemma callees_map [simp]: "callees (map (\<lambda>l. (p, l, s)) ms) = ms"
  by (simp add: callees_def comp_def)

lemma callees_append [simp]: "callees (xs @ ys) = callees xs @ callees ys"
  by (simp add: callees_def)

lemma count_list_distinct_member:
  "distinct xs \<Longrightarrow> x \<in> set xs \<Longrightarrow> count_list xs x = 1"
proof (induction xs)
  case Nil
  then show ?case by simp
next
  case (Cons y ys)
  show ?case
  proof (cases "y = x")
    case True
    then have "x \<notin> set ys" using Cons.prems(1) by simp
    then show ?thesis using True by (simp add: count_list_0_iff)
  next
    case False
    then show ?thesis using Cons by simp
  qed
qed

lemma perform_writes_observers:
  assumes "observers c st" and "length (listeners st) < n"
  shows "\<exists>st'. perform n c (map CallSetState us) st = Some st'
           \<and> listeners st' = listeners st
           \<and> storeState st' = committed (storeState st) us
           \<and> (\<exists>new. calls st' = calls st @ new
                 \<and> set (callees new) \<subseteq> set (members (listeners st)))"
  using assms
proof (induction us arbitrary: st)
  case Nil
  then show ?case by (simp add: committed_def callees_def)
next
  case (Cons u us)
  let ?first = "map (\<lambda>l. (Pass (passes st), l, nextState u (storeState st))) (members (listeners st))"
  let ?st2 = "st\<lparr>storeState := nextState u (storeState st), passes := Suc (passes st),
                calls := calls st @ ?first\<rparr>"
  have w: "setState n c u st = Some ?st2"
    using Cons.prems by (rule setState_observers)
  have o2: "observers c ?st2" using Cons.prems(1) by (simp add: observers_def)
  have f2: "length (listeners ?st2) < n" using Cons.prems(2) by simp
  from Cons.IH [OF o2 f2] obtain st' new
    where r: "perform n c (map CallSetState us) ?st2 = Some st'"
      and l: "listeners st' = listeners ?st2"
      and s: "storeState st' = committed (storeState ?st2) us"
      and t: "calls st' = calls ?st2 @ new"
      and m: "set (callees new) \<subseteq> set (members (listeners ?st2))"
    by blast
  have "perform n c (map CallSetState (u # us)) st = Some st'"
    using w r by (simp del: setState.simps)
  moreover have "listeners st' = listeners st" using l by simp
  moreover have "storeState st' = committed (storeState st) (u # us)"
    using s by (simp add: committed_def)
  moreover have "calls st' = calls st @ (?first @ new)" using t by simp
  moreover have "set (callees (?first @ new)) \<subseteq> set (members (listeners st))"
    using m by simp
  ultimately show ?case by blast
qed

subsection \<open>Passes when no listener calls \<open>setState\<close>\<close>

lemma forEach_no_nested:
  assumes "no_nested_setState c"
    and "forEach n c p i st = Some st'"
  shows "storeState st' = storeState st \<and> passes st' = passes st
         \<and> (\<exists>new. calls st' = calls st @ new
               \<and> (\<forall>e \<in> set new. fst e = Pass p \<and> snd (snd e) = storeState st))"
  using assms(2)
proof (induction n arbitrary: i st)
  case 0
  then show ?case by simp
next
  case (Suc n)
  show ?case
  proof (cases "i < length (listeners st)")
    case False
    then show ?thesis using Suc.prems by simp
  next
    case True
    show ?thesis
    proof (cases "listeners st ! i")
      case None
      then have "forEach n c p (Suc i) st = Some st'" using Suc.prems True by simp
      then show ?thesis by (rule Suc.IH)
    next
      case (Some l)
      let ?st1 = "st\<lparr>calls := calls st @ [(Pass p, l, storeState st)]\<rparr>"
      have "\<not> list_ex is_write (c l (storeState st))"
        using assms(1) by (simp add: no_nested_setState_def)
      from perform_quiet [OF this, of n c ?st1] obtain st2
        where p2: "perform n c (c l (storeState st)) ?st1 = Some st2"
          and s2: "storeState st2 = storeState ?st1"
          and c2: "calls st2 = calls ?st1"
          and n2: "passes st2 = passes ?st1"
        by blast
      have "forEach n c p (Suc i) st2 = Some st'"
        using Suc.prems True Some p2 by simp
      from Suc.IH [OF this] obtain new
        where a: "storeState st' = storeState st2" "passes st' = passes st2"
          and b: "calls st' = calls st2 @ new"
          and d: "\<forall>e \<in> set new. fst e = Pass p \<and> snd (snd e) = storeState st2"
        by blast
      have "calls st' = calls st @ ((Pass p, l, storeState st) # new)"
        using b c2 by simp
      moreover have "\<forall>e \<in> set ((Pass p, l, storeState st) # new).
          fst e = Pass p \<and> snd (snd e) = storeState st"
        using d s2 by simp
      ultimately show ?thesis using a s2 n2 by auto
    qed
  qed
qed

lemma setState_no_nested:
  assumes "no_nested_setState c"
    and "setState n c u st = Some st'"
  shows "storeState st' = nextState u (storeState st) \<and> passes st' = Suc (passes st)
         \<and> (\<exists>new. calls st' = calls st @ new
               \<and> (\<forall>e \<in> set new. fst e = Pass (passes st) \<and> snd (snd e) = storeState st'))"
proof -
  let ?st1 = "st\<lparr>storeState := nextState u (storeState st), passes := Suc (passes st)\<rparr>"
  have "forEach n c (passes st) 0 ?st1 = Some st'" using assms(2) by simp
  from forEach_no_nested [OF assms(1) this] show ?thesis by simp
qed

lemma same_view_new_pass:
  assumes "\<forall>e \<in> set old. \<forall>q. fst e = Pass q \<longrightarrow> q < p"
    and "same_view old"
    and "\<forall>e \<in> set new. fst e = Pass p \<and> snd (snd e) = s"
  shows "same_view (old @ new)"
  unfolding same_view_def
proof (intro ballI allI impI)
  fix e e' q
  assume e: "e \<in> set (old @ new)" and e': "e' \<in> set (old @ new)"
    and t: "fst e = Pass q" and t': "fst e' = Pass q"
  consider "e \<in> set old" "e' \<in> set old" | "e \<in> set new" "e' \<in> set new"
    | "e \<in> set old" "e' \<in> set new" | "e \<in> set new" "e' \<in> set old"
    using e e' by auto
  then show "snd (snd e) = snd (snd e')"
  proof cases
    case 1
    then show ?thesis using assms(2) t t' unfolding same_view_def by blast
  next
    case 2
    then have "snd (snd e) = s" "snd (snd e') = s" using assms(3) by blast+
    then show ?thesis by simp
  next
    case 3
    then have "q < p" "fst e' = Pass p" using assms(1,3) t by blast+
    then show ?thesis using t' by simp
  next
    case 4
    then have "q < p" "fst e = Pass p" using assms(1,3) t' by blast+
    then show ?thesis using t by simp
  qed
qed

lemma perform_no_nested:
  assumes "no_nested_setState c"
    and "perform n c prog st = Some st'"
    and "\<forall>e \<in> set (calls st). \<forall>q. fst e = Pass q \<longrightarrow> q < passes st"
    and "same_view (calls st)"
    and "last_pass_sees (storeState st) st"
  shows "storeState st' = committed (storeState st) (writes_of prog)
         \<and> (\<forall>e \<in> set (calls st'). \<forall>q. fst e = Pass q \<longrightarrow> q < passes st')
         \<and> same_view (calls st')
         \<and> last_pass_sees (storeState st') st'"
  using assms(2-)
proof (induction prog arbitrary: st)
  case Nil
  then show ?case by (simp add: committed_def)
next
  case (Cons a prog)
  show ?case
  proof (cases a)
    case (CallSetState u)
    obtain st2 where w: "setState n c u st = Some st2"
      and r: "perform n c prog st2 = Some st'"
      using Cons.prems(1) CallSetState by (auto split: option.splits)
    from setState_no_nested [OF assms(1) w] obtain new
      where s2: "storeState st2 = nextState u (storeState st)"
        and n2: "passes st2 = Suc (passes st)"
        and c2: "calls st2 = calls st @ new"
        and v2: "\<forall>e \<in> set new. fst e = Pass (passes st) \<and> snd (snd e) = storeState st2"
      by blast
    have i1: "\<forall>e \<in> set (calls st2). \<forall>q. fst e = Pass q \<longrightarrow> q < passes st2"
    proof (intro ballI allI impI)
      fix e q
      assume e: "e \<in> set (calls st2)" and t: "fst e = Pass q"
      show "q < passes st2"
      proof (cases "e \<in> set (calls st)")
        case True
        then have "q < passes st" using Cons.prems(2) t by blast
        then show ?thesis using n2 by simp
      next
        case False
        then have "e \<in> set new" using e c2 by simp
        then have "fst e = Pass (passes st)" using v2 by blast
        then show ?thesis using t n2 by simp
      qed
    qed
    have i2: "same_view (calls st2)"
      unfolding c2 using Cons.prems(2,3) v2 by (rule same_view_new_pass)
    have i3: "last_pass_sees (storeState st2) st2"
      unfolding last_pass_sees_def
    proof (intro ballI allI impI)
      fix e q
      assume e: "e \<in> set (calls st2)" and t: "fst e = Pass q" and l: "Suc q = passes st2"
      have "q = passes st" using l n2 by simp
      then have "e \<notin> set (calls st)" using Cons.prems(2) t by blast
      then have "e \<in> set new" using e c2 by simp
      then show "snd (snd e) = storeState st2" using v2 by blast
    qed
    have "committed (storeState st2) (writes_of prog) =
            committed (storeState st) (writes_of (a # prog))"
      using CallSetState s2 by (simp add: committed_def)
    with Cons.IH [OF r i1 i2 i3] show ?thesis by metis
  next
    case (CallSubscribe l)
    let ?s = "subscribe l st"
    have r: "perform n c prog ?s = Some st'" using Cons.prems(1) CallSubscribe by simp
    have i1: "\<forall>e \<in> set (calls ?s). \<forall>q. fst e = Pass q \<longrightarrow> q < passes ?s"
      using Cons.prems(2) by (simp add: subscribe_def)
    have i2: "same_view (calls ?s)" using Cons.prems(3) by (simp add: subscribe_def)
    have i3: "last_pass_sees (storeState ?s) ?s"
      using Cons.prems(4) by (simp add: subscribe_def last_pass_sees_def)
    have "committed (storeState ?s) (writes_of prog) =
            committed (storeState st) (writes_of (a # prog))"
      using CallSubscribe by (simp add: subscribe_def)
    with Cons.IH [OF r i1 i2 i3] show ?thesis by metis
  next
    case (CallUnsubscribe l)
    let ?s = "unsubscribe l st"
    have r: "perform n c prog ?s = Some st'" using Cons.prems(1) CallUnsubscribe by simp
    have i1: "\<forall>e \<in> set (calls ?s). \<forall>q. fst e = Pass q \<longrightarrow> q < passes ?s"
      using Cons.prems(2) by (simp add: unsubscribe_def)
    have i2: "same_view (calls ?s)" using Cons.prems(3) by (simp add: unsubscribe_def)
    have i3: "last_pass_sees (storeState ?s) ?s"
      using Cons.prems(4) by (simp add: unsubscribe_def last_pass_sees_def)
    have "committed (storeState ?s) (writes_of prog) =
            committed (storeState st) (writes_of (a # prog))"
      using CallUnsubscribe by (simp add: unsubscribe_def)
    with Cons.IH [OF r i1 i2 i3] show ?thesis by metis
  qed
qed

subsection \<open>What every run keeps\<close>

lemma calls_grow:
  "\<forall>st'. setState n c u st = Some st' \<longrightarrow> (\<exists>new. calls st' = calls st @ new)"
  "\<forall>st'. forEach n c p i st = Some st' \<longrightarrow> (\<exists>new. calls st' = calls st @ new)"
  "\<forall>st'. perform n c as st = Some st' \<longrightarrow> (\<exists>new. calls st' = calls st @ new)"
proof (induction n c u st and n c p i st and n c as st rule: setState_forEach_perform.induct)
  case (1 n c newState st)
  then show ?case by simp
next
  case (2 c p i st)
  then show ?case by simp
next
  case (3 n c p i st)
  show ?case
  proof (intro allI impI)
    fix st'
    assume r: "forEach (Suc n) c p i st = Some st'"
    show "\<exists>new. calls st' = calls st @ new"
    proof (cases "i < length (listeners st)")
      case False
      then show ?thesis using r by simp
    next
      case True
      show ?thesis
      proof (cases "listeners st ! i")
        case None
        then show ?thesis using "3.IH"(1) [OF True None] True r by simp
      next
        case (Some l)
        let ?st1 = "st\<lparr>calls := calls st @ [(Pass p, l, storeState st)]\<rparr>"
        obtain st2 where p2: "perform n c (c l (storeState st)) ?st1 = Some st2"
          and f2: "forEach n c p (Suc i) st2 = Some st'"
          using r True Some by (auto split: option.splits)
        obtain new1 where g1: "calls st2 = calls ?st1 @ new1"
          using "3.IH"(2) [OF True Some] p2 by blast
        obtain new2 where g2: "calls st' = calls st2 @ new2"
          using "3.IH"(3) [OF True Some p2] f2 by blast
        have "calls st' = calls st @ ((Pass p, l, storeState st) # new1 @ new2)"
          using g1 g2 by simp
        then show ?thesis by blast
      qed
    qed
  qed
next
  case (4 n c st)
  then show ?case by simp
next
  case (5 n c a as st)
  show ?case
  proof (intro allI impI)
    fix st'
    assume r: "perform n c (a # as) st = Some st'"
    show "\<exists>new. calls st' = calls st @ new"
    proof (cases a)
      case (CallSetState u)
      obtain st2 where s2: "setState n c u st = Some st2" and p2: "perform n c as st2 = Some st'"
        using r CallSetState by (auto split: option.splits)
      obtain new1 where g1: "calls st2 = calls st @ new1"
        using "5.IH"(1) [OF CallSetState] s2 by blast
      obtain new2 where g2: "calls st' = calls st2 @ new2"
        using "5.IH"(2) [OF CallSetState s2] p2 by blast
      have "calls st' = calls st @ (new1 @ new2)" using g1 g2 by simp
      then show ?thesis by blast
    next
      case (CallSubscribe l)
      have "perform n c as (subscribe l st) = Some st'" using r CallSubscribe by simp
      then show ?thesis using "5.IH"(3) [OF CallSubscribe] by (simp add: subscribe_def)
    next
      case (CallUnsubscribe l)
      have "perform n c as (unsubscribe l st) = Some st'" using r CallUnsubscribe by simp
      then show ?thesis using "5.IH"(4) [OF CallUnsubscribe] by (simp add: unsubscribe_def)
    qed
  qed
qed

lemma stays_out:
  "leaves_out c l \<longrightarrow> l \<notin> set (members (listeners st)) \<longrightarrow>
     (\<forall>st'. setState n c u st = Some st' \<longrightarrow>
        l \<notin> set (members (listeners st'))
        \<and> (\<exists>new. calls st' = calls st @ new \<and> l \<notin> set (callees new)))"
  "leaves_out c l \<longrightarrow> l \<notin> set (members (listeners st)) \<longrightarrow>
     (\<forall>st'. forEach n c p i st = Some st' \<longrightarrow>
        l \<notin> set (members (listeners st'))
        \<and> (\<exists>new. calls st' = calls st @ new \<and> l \<notin> set (callees new)))"
  "leaves_out c l \<longrightarrow> CallSubscribe l \<notin> set as \<longrightarrow> l \<notin> set (members (listeners st)) \<longrightarrow>
     (\<forall>st'. perform n c as st = Some st' \<longrightarrow>
        l \<notin> set (members (listeners st'))
        \<and> (\<exists>new. calls st' = calls st @ new \<and> l \<notin> set (callees new)))"
proof (induction n c u st and n c p i st and n c as st rule: setState_forEach_perform.induct)
  case (1 n c newState st)
  then show ?case by simp
next
  case (2 c p i st)
  then show ?case by simp
next
  case (3 n c p i st)
  show ?case
  proof (intro allI impI)
    fix st'
    assume lo: "leaves_out c l"
      and out: "l \<notin> set (members (listeners st))"
      and r: "forEach (Suc n) c p i st = Some st'"
    show "l \<notin> set (members (listeners st'))
        \<and> (\<exists>new. calls st' = calls st @ new \<and> l \<notin> set (callees new))"
    proof (cases "i < length (listeners st)")
      case False
      then have "st' = st" using r by simp
      then show ?thesis using out by (simp add: callees_def)
    next
      case True
      show ?thesis
      proof (cases "listeners st ! i")
        case None
        then show ?thesis using "3.IH"(1) [OF True None] True r lo out by simp
      next
        case (Some l')
        let ?st1 = "st\<lparr>calls := calls st @ [(Pass p, l', storeState st)]\<rparr>"
        obtain st2 where p2: "perform n c (c l' (storeState st)) ?st1 = Some st2"
          and f2: "forEach n c p (Suc i) st2 = Some st'"
          using r True Some by (auto split: option.splits)
        have "Some l' \<in> set (listeners st)" using True Some by (metis nth_mem)
        then have "l' \<in> set (members (listeners st))" by (simp add: set_members)
        then have ne: "l' \<noteq> l" using out by blast
        then have body: "CallSubscribe l \<notin> set (c l' (storeState st))"
          using lo by (simp add: leaves_out_def)
        have out1: "l \<notin> set (members (listeners ?st1))" using out by simp
        from "3.IH"(2) [OF True Some] lo body out1 p2
        obtain new1 where o2: "l \<notin> set (members (listeners st2))"
          and g1: "calls st2 = calls ?st1 @ new1" and n1: "l \<notin> set (callees new1)"
          by blast
        from "3.IH"(3) [OF True Some p2] lo o2 f2
        obtain new2 where o3: "l \<notin> set (members (listeners st'))"
          and g2: "calls st' = calls st2 @ new2" and n2: "l \<notin> set (callees new2)"
          by blast
        have "calls st' = calls st @ ((Pass p, l', storeState st) # new1 @ new2)"
          using g1 g2 by simp
        moreover have "l \<notin> set (callees ((Pass p, l', storeState st) # new1 @ new2))"
          using ne n1 n2 by (simp add: callees_def)
        ultimately show ?thesis using o3 by blast
      qed
    qed
  qed
next
  case (4 n c st)
  then show ?case by (simp add: callees_def)
next
  case (5 n c a as st)
  show ?case
  proof (intro allI impI)
    fix st'
    assume lo: "leaves_out c l"
      and ns: "CallSubscribe l \<notin> set (a # as)"
      and out: "l \<notin> set (members (listeners st))"
      and r: "perform n c (a # as) st = Some st'"
    have ns': "CallSubscribe l \<notin> set as" using ns by simp
    show "l \<notin> set (members (listeners st'))
        \<and> (\<exists>new. calls st' = calls st @ new \<and> l \<notin> set (callees new))"
    proof (cases a)
      case (CallSetState u)
      obtain st2 where s2: "setState n c u st = Some st2" and p2: "perform n c as st2 = Some st'"
        using r CallSetState by (auto split: option.splits)
      from "5.IH"(1) [OF CallSetState] lo out s2
      obtain new1 where o2: "l \<notin> set (members (listeners st2))"
        and g1: "calls st2 = calls st @ new1" and n1: "l \<notin> set (callees new1)"
        by blast
      from "5.IH"(2) [OF CallSetState s2] lo ns' o2 p2
      obtain new2 where o3: "l \<notin> set (members (listeners st'))"
        and g2: "calls st' = calls st2 @ new2" and n2: "l \<notin> set (callees new2)"
        by blast
      have "calls st' = calls st @ (new1 @ new2)" using g1 g2 by simp
      moreover have "l \<notin> set (callees (new1 @ new2))" using n1 n2 by simp
      ultimately show ?thesis using o3 by blast
    next
      case (CallSubscribe l')
      then have ne: "l' \<noteq> l" using ns by auto
      have r': "perform n c as (subscribe l' st) = Some st'" using r CallSubscribe by simp
      have "l \<notin> set (members (listeners (subscribe l' st)))"
        using out ne by (simp add: subscribe_def members_set_add)
      with "5.IH"(3) [OF CallSubscribe] lo ns' r' show ?thesis
        by (simp add: subscribe_def)
    next
      case (CallUnsubscribe l')
      have r': "perform n c as (unsubscribe l' st) = Some st'" using r CallUnsubscribe by simp
      have "l \<notin> set (members (listeners (unsubscribe l' st)))"
        using out by (simp add: unsubscribe_def members_set_delete)
      with "5.IH"(4) [OF CallUnsubscribe] lo ns' r' show ?thesis
        by (simp add: unsubscribe_def)
    qed
  qed
qed

subsection \<open>A pass over listeners that only subscribe\<close>

lemma perform_subscribes:
  "list_all is_subscribe as \<Longrightarrow>
     \<exists>added. perform n c as st = Some (st\<lparr>listeners := listeners st @ added\<rparr>)"
proof (induction as arbitrary: st)
  case Nil
  have "st = st\<lparr>listeners := listeners st @ []\<rparr>" by simp
  then show ?case by (metis perform.simps(1))
next
  case (Cons a as)
  then have rest: "list_all is_subscribe as" by simp
  show ?case
  proof (cases a)
    case (CallSetState u)
    then show ?thesis using Cons.prems by simp
  next
    case (CallSubscribe l)
    obtain first where f: "subscribe l st = st\<lparr>listeners := listeners st @ first\<rparr>"
    proof (cases "Some l \<in> set (listeners st)")
      case True
      then have "subscribe l st = st\<lparr>listeners := listeners st @ []\<rparr>"
        by (simp add: subscribe_def set_add_def)
      then show ?thesis using that by blast
    next
      case False
      then have "subscribe l st = st\<lparr>listeners := listeners st @ [Some l]\<rparr>"
        by (simp add: subscribe_def set_add_def)
      then show ?thesis using that by blast
    qed
    let ?s = "st\<lparr>listeners := listeners st @ first\<rparr>"
    from Cons.IH [OF rest, of ?s] obtain added
      where "perform n c as ?s = Some (?s\<lparr>listeners := listeners ?s @ added\<rparr>)"
      by blast
    then have "perform n c (a # as) st = Some (st\<lparr>listeners := listeners st @ (first @ added)\<rparr>)"
      using CallSubscribe f by simp
    then show ?thesis by blast
  next
    case (CallUnsubscribe l)
    then show ?thesis using Cons.prems by simp
  qed
qed

lemma forEach_subscribers_only:
  assumes "subscribers_only c"
    and "forEach n c p i st = Some st'"
  shows "\<exists>added. st' = st\<lparr>listeners := listeners st @ added,
                          calls := calls st @
                            map (\<lambda>l. (Pass p, l, storeState st))
                              (members (drop i (listeners st @ added)))\<rparr>"
  using assms(2)
proof (induction n arbitrary: i st)
  case 0
  then show ?case by simp
next
  case (Suc n)
  show ?case
  proof (cases "i < length (listeners st)")
    case False
    then have "st' = st" using Suc.prems by simp
    moreover have "st = st\<lparr>listeners := listeners st @ [],
        calls := calls st @ map (\<lambda>l. (Pass p, l, storeState st)) (members (drop i (listeners st @ [])))\<rparr>"
      using False by simp
    ultimately show ?thesis by metis
  next
    case True
    note inb = this
    show ?thesis
    proof (cases "listeners st ! i")
      case None
      then have "forEach n c p (Suc i) st = Some st'" using Suc.prems inb by simp
      from Suc.IH [OF this] obtain added
        where r: "st' = st\<lparr>listeners := listeners st @ added,
                          calls := calls st @ map (\<lambda>l. (Pass p, l, storeState st))
                              (members (drop (Suc i) (listeners st @ added)))\<rparr>"
        by blast
      have "i < length (listeners st @ added)" "(listeners st @ added) ! i = None"
        using inb None by (simp_all add: nth_append)
      then have "members (drop i (listeners st @ added)) = members (drop (Suc i) (listeners st @ added))"
        using members_drop_nth [of i "listeners st @ added"] by simp
      then show ?thesis using r by metis
    next
      case (Some l)
      let ?st1 = "st\<lparr>calls := calls st @ [(Pass p, l, storeState st)]\<rparr>"
      have "list_all is_subscribe (c l (storeState st))"
        using assms(1) by (simp add: subscribers_only_def)
      from perform_subscribes [OF this, of n c ?st1] obtain first
        where p2: "perform n c (c l (storeState st)) ?st1 = Some (?st1\<lparr>listeners := listeners ?st1 @ first\<rparr>)"
        by blast
      let ?st2 = "?st1\<lparr>listeners := listeners ?st1 @ first\<rparr>"
      have "forEach n c p (Suc i) ?st2 = Some st'"
        using Suc.prems inb Some p2 by simp
      from Suc.IH [OF this] obtain added
        where r: "st' = ?st2\<lparr>listeners := listeners ?st2 @ added,
                          calls := calls ?st2 @ map (\<lambda>l. (Pass p, l, storeState ?st2))
                              (members (drop (Suc i) (listeners ?st2 @ added)))\<rparr>"
        by blast
      let ?all = "listeners st @ (first @ added)"
      have "i < length ?all" "?all ! i = Some l"
        using inb Some by (simp_all add: nth_append)
      then have m: "members (drop i ?all) = l # members (drop (Suc i) ?all)"
        using members_drop_nth [of i ?all] by simp
      have "st' = st\<lparr>listeners := ?all,
                    calls := calls st @ map (\<lambda>l. (Pass p, l, storeState st)) (members (drop i ?all))\<rparr>"
        using r m by simp
      then show ?thesis by blast
    qed
  qed
qed

lemma setState_subscribers_only:
  assumes "subscribers_only c"
    and "setState n c u st = Some st'"
  shows "\<exists>added. st' = st\<lparr>storeState := nextState u (storeState st), passes := Suc (passes st),
                          listeners := listeners st @ added,
                          calls := calls st @
                            map (\<lambda>l. (Pass (passes st), l, nextState u (storeState st)))
                              (members (listeners st) @ members added)\<rparr>"
proof -
  let ?st1 = "st\<lparr>storeState := nextState u (storeState st), passes := Suc (passes st)\<rparr>"
  have "forEach n c (passes st) 0 ?st1 = Some st'" using assms(2) by simp
  from forEach_subscribers_only [OF assms(1) this] obtain added
    where "st' = ?st1\<lparr>listeners := listeners ?st1 @ added,
                          calls := calls ?st1 @
                            map (\<lambda>l. (Pass (passes st), l, storeState ?st1))
                              (members (drop 0 (listeners ?st1 @ added)))\<rparr>"
    by blast
  then have "st' = st\<lparr>storeState := nextState u (storeState st), passes := Suc (passes st),
                          listeners := listeners st @ added,
                          calls := calls st @
                            map (\<lambda>l. (Pass (passes st), l, nextState u (storeState st)))
                              (members (listeners st) @ members added)\<rparr>"
    by simp
  then show ?thesis by blast
qed

lemma once_each:
  assumes "distinct (members (listeners st))"
    and "subscribers_only c"
    and "setState n c u st = Some st'"
  shows "getState st' = nextState u (getState st)
         \<and> (\<forall>l \<in> set (members (listeners st)).
               invocations l (new_calls st st') = [(Pass (passes st), l, nextState u (getState st))])
         \<and> take (length (members (listeners st))) (callees (new_calls st st')) =
               members (listeners st)"
proof -
  let ?v = "nextState u (storeState st)"
  from setState_subscribers_only [OF assms(2,3)] obtain added
    where r: "st' = st\<lparr>storeState := ?v, passes := Suc (passes st),
                          listeners := listeners st @ added,
                          calls := calls st @
                            map (\<lambda>l. (Pass (passes st), l, ?v))
                              (members (listeners st) @ members added)\<rparr>"
    by blast
  let ?all = "members (listeners st) @ members added"
  have "distinct (members (listeners st'))"
    using distinct_after(1) assms(1,3) by blast
  then have d: "distinct ?all" using r by simp
  have nc: "new_calls st st' = map (\<lambda>l. (Pass (passes st), l, ?v)) ?all"
    using r by (simp add: new_calls_def)
  have "getState st' = nextState u (getState st)" using r by (simp add: getState_def)
  moreover have "\<forall>l \<in> set (members (listeners st)).
      invocations l (new_calls st st') = [(Pass (passes st), l, nextState u (getState st))]"
  proof
    fix l
    assume "l \<in> set (members (listeners st))"
    then have "l \<in> set ?all" by simp
    from invocations_map_member [OF d this]
    show "invocations l (new_calls st st') = [(Pass (passes st), l, nextState u (getState st))]"
      using nc by (simp add: getState_def)
  qed
  moreover have "take (length (members (listeners st))) (callees (new_calls st st')) =
      members (listeners st)"
    unfolding nc callees_map by simp
  ultimately show ?thesis by blast
qed

section \<open>The claims\<close>




text \<open>
  C2, as stated, with \<open>setState\<close> calls made by a listener while it is notified: every
  listener of one notification pass receives the same value. It fails for the listener
  \<open>0\<close> that answers the state \<open>1\<close> with \<open>setState(2)\<close>: the callback of \<open>forEach\<close>
  reads \<open>storeState\<close> at each call, so the pass of \<open>setState(1)\<close> (pass \<open>0\<close>) gives
  \<open>1\<close> to listener \<open>0\<close> and, after the nested call has run, \<open>2\<close> to listener \<open>1\<close>.
\<close>

theorem nested_setState_splits_a_pass:
  "perform 5 nested [CallSubscribe 0, CallSubscribe 1, CallSetState (Replace 1)] (createStore 0) =
     Some \<lparr>storeState = 2, listeners = [Some 0, Some 1],
           calls = [(Pass 0, 0, 1), (Pass 1, 0, 2), (Pass 1, 1, 2), (Pass 0, 1, 2)], passes = 2\<rparr>
   \<and> \<not> same_view [(Pass 0, 0, 1), (Pass 1, 0, 2), (Pass 1, 1, 2), (Pass 0, 1, 2 :: int)]"
proof -
  have "perform 5 nested [CallSubscribe 0, CallSubscribe 1, CallSetState (Replace 1)] (createStore 0) =
     Some \<lparr>storeState = 2, listeners = [Some 0, Some 1],
           calls = [(Pass 0, 0, 1), (Pass 1, 0, 2), (Pass 1, 1, 2), (Pass 0, 1, 2)], passes = 2\<rparr>"
    by code_simp
  moreover have "\<not> same_view [(Pass 0, 0, 1), (Pass 1, 0, 2), (Pass 1, 1, 2), (Pass 0, 1, 2 :: int)]"
    by (simp add: same_view_def)
  ultimately show ?thesis by simp
qed

text \<open>
  C2, amended. When no listener calls \<open>setState\<close> while it is notified, then after any
  sequence of calls to a store made by \<open>createStore\<close>, \<open>getState()\<close> is the state
  committed by the most recent \<open>setState\<close> call, that value is the argument of every
  listener invoked by the most recent \<open>setState\<close> call, and the listeners of one
  notification pass all received the same value.
\<close>

theorem passes_see_one_state:
  assumes "no_nested_setState c"
    and "perform n c prog (createStore s0) = Some st"
  shows "getState st = committed s0 (writes_of prog)
         \<and> same_view (calls st)
         \<and> last_pass_sees (getState st) st"
proof -
  let ?st0 = "createStore s0"
  have "\<forall>e \<in> set (calls ?st0). \<forall>q. fst e = Pass q \<longrightarrow> q < passes ?st0" "same_view (calls ?st0)"
    "last_pass_sees (storeState ?st0) ?st0"
    by (simp_all add: createStore_def same_view_def last_pass_sees_def)
  from perform_no_nested [OF assms this]
  have "storeState st = committed (storeState ?st0) (writes_of prog)"
    and "same_view (calls st)" and "last_pass_sees (storeState st) st"
    by blast+
  moreover have "storeState ?st0 = s0" by (simp add: createStore_def)
  ultimately show ?thesis by (simp add: getState_def)
qed

theorem passes_see_one_state_witness:
  "no_nested_setState (watch :: int code)
   \<and> perform 3 watch
        [CallSubscribe 0, CallSubscribe 1, CallSetState (Replace 1), CallSetState (Update (\<lambda>s. s + 1))]
        (createStore (0::int)) =
       Some \<lparr>storeState = 2, listeners = [Some 0, Some 1],
             calls = [(Pass 0, 0, 1), (Pass 0, 1, 1), (Pass 1, 0, 2), (Pass 1, 1, 2)], passes = 2\<rparr>
   \<and> same_view [(Pass 0, 0, 1), (Pass 0, 1, 1), (Pass 1, 0, 2), (Pass 1, 1, 2 :: int)]
   \<and> last_pass_sees 2 \<lparr>storeState = 2 :: int, listeners = [Some 0, Some 1],
             calls = [(Pass 0, 0, 1), (Pass 0, 1, 1), (Pass 1, 0, 2), (Pass 1, 1, 2)], passes = 2\<rparr>"
proof -
  let ?prog = "[CallSubscribe 0, CallSubscribe 1, CallSetState (Replace 1),
                CallSetState (Update (\<lambda>s. s + 1 :: int))]"
  let ?st = "\<lparr>storeState = 2 :: int, listeners = [Some 0, Some 1],
             calls = [(Pass 0, 0, 1), (Pass 0, 1, 1), (Pass 1, 0, 2), (Pass 1, 1, 2)], passes = 2\<rparr>"
  have h1: "no_nested_setState (watch :: int code)"
    by (simp add: no_nested_setState_def watch_def)
  have h2: "perform 3 watch ?prog (createStore (0::int)) = Some ?st"
    by code_simp
  from passes_see_one_state [OF h1 h2]
  have "same_view (calls ?st)" and "last_pass_sees (getState ?st) ?st"
    by blast+
  then have "same_view [(Pass 0, 0, 1), (Pass 0, 1, 1), (Pass 1, 0, 2), (Pass 1, 1, 2 :: int)]"
    and "last_pass_sees 2 ?st"
    by (simp_all add: getState_def)
  with h1 h2 show ?thesis by blast
qed




text \<open>
  C4. The scenario of the application: from \<open>createStore({count: 0})\<close> with one
  subscribed listener \<open>l\<close> that observes, three calls
  \<open>setState(s => ({...s, count: s.count + 1}))\<close> leave the state \<open>{count: 3}\<close>, and
  the listener was invoked three times, with the counts 1, 2 and 3 in this order.
\<close>

theorem three_increments:
  "perform (Suc (Suc k)) watch [CallSetState increment, CallSetState increment, CallSetState increment]
     (subscribe l store) =
   Some \<lparr>storeState = \<lparr>count = 3\<rparr>, listeners = [Some l],
         calls = [(Pass 0, l, \<lparr>count = 1\<rparr>), (Pass 1, l, \<lparr>count = 2\<rparr>), (Pass 2, l, \<lparr>count = 3\<rparr>)],
         passes = 3\<rparr>"
  by (simp add: store_def initialState_def createStore_def subscribe_def set_add_def
      increment_def watch_def eval_nat_numeral)

text \<open>
  C5, as stated, for every store and every sequence of writes: a listener whose
  unsubscribe function has been called is never invoked again. It fails when the
  listener is subscribed again. Listener \<open>1\<close> subscribes listener \<open>0\<close> when it sees the
  state \<open>6\<close>, and the write \<open>setState(6)\<close>, made after the unsubscribe function of
  listener \<open>0\<close> was called, invokes listener \<open>0\<close> (pass \<open>1\<close>); so does a write made
  after the caller has subscribed the listener again.
\<close>

theorem resubscribed_listener_is_called_again:
  "perform 5 inviter
     [CallSubscribe 0, CallSubscribe 1, CallSetState (Replace 5), CallUnsubscribe 0,
      CallSetState (Replace 6)]
     (createStore 0) =
   Some \<lparr>storeState = 6, listeners = [None, Some 1, Some 0],
         calls = [(Pass 0, 0, 5), (Pass 0, 1, 5), (Pass 1, 1, 6), (Pass 1, 0, 6)], passes = 2\<rparr>
   \<and> perform 5 watch
     [CallSubscribe 0, CallUnsubscribe 0, CallSubscribe 0, CallSetState (Replace 6)]
     (createStore (0::int)) =
   Some \<lparr>storeState = 6, listeners = [None, Some 0], calls = [(Pass 0, 0, 6)], passes = 1\<rparr>"
  by code_simp

text \<open>
  C5, amended. Once the function returned by \<open>subscribe(l)\<close> has been called, no later
  call to the store invokes \<open>l\<close>, as long as \<open>l\<close> is not subscribed again, by the
  caller or by another listener: after every sequence of calls that does not subscribe
  \<open>l\<close>, with listeners that may call the store but do not subscribe \<open>l\<close>, the
  invocations of \<open>l\<close> in the trace are those made before, and the trace made before is
  kept as it was.
\<close>

theorem unsubscribed_listener_gets_no_more_calls:
  assumes "leaves_out c l"
    and "CallSubscribe l \<notin> set prog"
    and "perform n c prog (unsubscribe l st) = Some st'"
  shows "invocations l (calls st') = invocations l (calls st)
         \<and> take (length (calls st)) (calls st') = calls st"
proof -
  let ?s = "unsubscribe l st"
  have "l \<notin> set (members (listeners ?s))"
    by (simp add: unsubscribe_def members_set_delete)
  with stays_out(3) [of c l prog ?s n] assms obtain new
    where g: "calls st' = calls ?s @ new" and n: "l \<notin> set (callees new)"
    by blast
  have "invocations l new = []" using n by (rule invocations_not_called)
  moreover have "calls ?s = calls st" by (simp add: unsubscribe_def)
  ultimately show ?thesis using g by simp
qed

theorem unsubscribed_listener_gets_no_more_calls_witness:
  "leaves_out nested 1
   \<and> CallSubscribe 1 \<notin> set [CallSetState (Replace 1), CallSubscribe 2, CallSetState (Replace 7 :: int updater)]
   \<and> perform 5 nested [CallSetState (Replace 1), CallSubscribe 2, CallSetState (Replace 7)]
        (unsubscribe 1 notified_once) =
       Some \<lparr>storeState = 7, listeners = [Some 0, None, Some 2],
             calls = [(Pass 0, 0, 5), (Pass 0, 1, 5), (Pass 1, 0, 1), (Pass 2, 0, 2),
                      (Pass 3, 0, 7), (Pass 3, 2, 7)],
             passes = 4\<rparr>
   \<and> invocations 1 [(Pass 0, 0, 5), (Pass 0, 1, 5), (Pass 1, 0, 1), (Pass 2, 0, 2),
                     (Pass 3, 0, 7), (Pass 3, 2, 7 :: int)]
       = invocations 1 (calls notified_once)
   \<and> invocations 1 (calls notified_once) = [(Pass 0, 1, 5)]"
proof -
  let ?prog = "[CallSetState (Replace 1), CallSubscribe 2, CallSetState (Replace 7 :: int updater)]"
  let ?st' = "\<lparr>storeState = 7 :: int, listeners = [Some 0, None, Some 2],
             calls = [(Pass 0, 0, 5), (Pass 0, 1, 5), (Pass 1, 0, 1), (Pass 2, 0, 2),
                      (Pass 3, 0, 7), (Pass 3, 2, 7)],
             passes = 4\<rparr>"
  have h1: "leaves_out nested 1"
    by (simp add: leaves_out_def nested_def)
  have h2: "CallSubscribe 1 \<notin> set ?prog" by simp
  have h3: "perform 5 nested ?prog (unsubscribe 1 notified_once) = Some ?st'"
    by code_simp
  from unsubscribed_listener_gets_no_more_calls [OF h1 h2 h3]
  have "invocations 1 (calls ?st') = invocations 1 (calls notified_once)" by blast
  then have "invocations 1 [(Pass 0, 0, 5), (Pass 0, 1, 5), (Pass 1, 0, 1), (Pass 2, 0, 2),
                     (Pass 3, 0, 7), (Pass 3, 2, 7 :: int)]
       = invocations 1 (calls notified_once)" by simp
  moreover have "invocations 1 (calls notified_once) = [(Pass 0, 1, 5)]"
    by (simp add: notified_once_def invocations_def)
  ultimately show ?thesis using h1 h2 h3 by blast
qed







text \<open>
  C8. A second call of the function returned by \<open>subscribe\<close> changes nothing: the store
  after two calls is the store after one, with the same registered listeners and the same
  state, and every later sequence of calls to the store runs the same on both.
\<close>

theorem unsubscribe_twice_is_noop:
  "unsubscribe l (unsubscribe l st) = unsubscribe l st
   \<and> members (listeners (unsubscribe l (unsubscribe l st))) = removeAll l (members (listeners st))
   \<and> getState (unsubscribe l (unsubscribe l st)) = getState st
   \<and> perform n c prog (unsubscribe l (unsubscribe l st)) = perform n c prog (unsubscribe l st)"
proof -
  have same: "unsubscribe l (unsubscribe l st) = unsubscribe l st"
    by (simp add: unsubscribe_def set_delete_twice)
  have "members (listeners (unsubscribe l st)) = removeAll l (members (listeners st))"
    by (simp add: unsubscribe_def members_set_delete)
  moreover have "getState (unsubscribe l st) = getState st"
    by (simp add: unsubscribe_def getState_def)
  ultimately show ?thesis using same by simp
qed




text \<open>
  C10, as stated: a subscribed listener is first invoked only by a later \<open>setState\<close>
  call. It fails for the listeners of \<open>useStore\<close>, the only caller of \<open>subscribe\<close>: its
  effect calls the listener itself right after subscribing it, and the listener has
  been invoked although no \<open>setState\<close> call was made (\<open>passes\<close> is \<open>0\<close>).
\<close>

theorem effect_calls_the_listener_itself:
  "useStore_effect 1 watch 0 (createStore (0::int)) =
     Some \<lparr>storeState = 0, listeners = [Some 0], calls = [(Effect, 0, 0)], passes = 0\<rparr>"
  by code_simp

text \<open>
  C10, amended. \<open>subscribe(l)\<close> invokes no listener and leaves the state as it was, and
  calls to the store other than \<open>setState\<close> made after it invoke no listener either. The
  first invocation of a listener need not come from \<open>setState\<close>: the effect of
  \<open>useStore\<close> invokes the listener it has subscribed once itself, with the current
  state, before anything else is added to the trace; for a listener that makes no call
  to the store that is all the effect does.
\<close>

theorem subscribe_invokes_nothing:
  "calls (subscribe l st) = calls st
   \<and> getState (subscribe l st) = getState st
   \<and> (\<not> list_ex is_write prog \<longrightarrow>
        (\<exists>st1. perform n c prog (subscribe l st) = Some st1 \<and> calls st1 = calls st))
   \<and> (\<forall>st'. useStore_effect n c l st = Some st' \<longrightarrow>
        (\<exists>later. calls st' = calls st @ (Effect, l, getState st) # later))
   \<and> (c l (getState st) = [] \<longrightarrow>
        useStore_effect n c l st =
          Some ((subscribe l st)\<lparr>calls := calls st @ [(Effect, l, getState st)]\<rparr>))"
proof (intro conjI allI impI)
  show "calls (subscribe l st) = calls st" by (simp add: subscribe_def)
  show "getState (subscribe l st) = getState st" by (simp add: subscribe_def getState_def)
next
  assume q: "\<not> list_ex is_write prog"
  from perform_quiet [OF q, of n c "subscribe l st"]
  obtain st1 where "perform n c prog (subscribe l st) = Some st1"
    and "calls st1 = calls (subscribe l st)"
    by blast
  moreover have "calls (subscribe l st) = calls st" by (simp add: subscribe_def)
  ultimately show "\<exists>st1. perform n c prog (subscribe l st) = Some st1 \<and> calls st1 = calls st"
    by simp
next
  fix st'
  assume r: "useStore_effect n c l st = Some st'"
  let ?s = "subscribe l st"
  let ?st1 = "?s\<lparr>calls := calls ?s @ [(Effect, l, storeState ?s)]\<rparr>"
  have "perform n c (c l (storeState ?s)) ?st1 = Some st'"
    using r by (simp add: useStore_effect_def Let_def)
  then obtain new where "calls st' = calls ?st1 @ new"
    using calls_grow(3) by blast
  then have "calls st' = calls st @ (Effect, l, getState st) # new"
    by (simp add: subscribe_def getState_def)
  then show "\<exists>later. calls st' = calls st @ (Effect, l, getState st) # later" by blast
next
  assume "c l (getState st) = []"
  then show "useStore_effect n c l st =
          Some ((subscribe l st)\<lparr>calls := calls st @ [(Effect, l, getState st)]\<rparr>)"
    by (simp add: useStore_effect_def Let_def subscribe_def getState_def)
qed

theorem subscribe_invokes_nothing_witness:
  "\<not> list_ex is_write [CallSubscribe 1, CallUnsubscribe 1 :: int action]
   \<and> useStore_effect 1 watch 0 (createStore (0::int)) =
       Some \<lparr>storeState = 0, listeners = [Some 0], calls = [(Effect, 0, 0)], passes = 0\<rparr>
   \<and> watch 0 (getState (createStore (0::int))) = []
   \<and> calls (subscribe 0 (createStore (0::int))) = []
   \<and> getState (subscribe 0 (createStore (0::int))) = 0
   \<and> (\<exists>st1. perform 1 watch [CallSubscribe 1, CallUnsubscribe 1] (subscribe 0 (createStore (0::int))) = Some st1
         \<and> calls st1 = [])"
proof -
  have h1: "\<not> list_ex is_write [CallSubscribe 1, CallUnsubscribe 1 :: int action]" by simp
  have h2: "useStore_effect 1 watch 0 (createStore (0::int)) =
       Some \<lparr>storeState = 0, listeners = [Some 0], calls = [(Effect, 0, 0)], passes = 0\<rparr>"
    by code_simp
  have h3: "watch 0 (getState (createStore (0::int))) = []" by (simp add: watch_def)
  have e: "calls (createStore (0::int)) = []" "getState (createStore (0::int)) = 0"
    by (simp_all add: createStore_def getState_def)
  note inst = subscribe_invokes_nothing
    [where l = 0 and st = "createStore (0::int)" and n = 1 and c = watch
       and prog = "[CallSubscribe 1, CallUnsubscribe 1]"]
  from inst h1 have "calls (subscribe 0 (createStore (0::int))) = calls (createStore (0::int))"
    and "getState (subscribe 0 (createStore (0::int))) = getState (createStore (0::int))"
    and "\<exists>st1. perform 1 watch [CallSubscribe 1, CallUnsubscribe 1] (subscribe 0 (createStore (0::int))) = Some st1
         \<and> calls st1 = calls (createStore (0::int))"
    by blast+
  then show ?thesis using h1 h2 h3 e by (simp del: perform.simps)
qed

end
